theory Spec2Isabelle
  imports Main
begin

section \<open>Table-of-contents generator (toc.py)\<close>

text \<open>
  The program is one function, \<^verbatim>\<open>generate_table_of_contents\<close>, over a Python
  \<^verbatim>\<open>str\<close>. A Python string is a sequence of code points; here a string is a
  \<^typ>\<open>string\<close>, one \<^typ>\<open>char\<close> per code point, which covers the code points
  below 256. The character classes below are those of Python's \<^verbatim>\<open>re\<close> and
  \<^verbatim>\<open>str\<close> on that range. The value the function returns does not depend on
  the \<^verbatim>\<open>print\<close> call inside its loop: \<open>generate_table_of_contents\<close> is that
  value, and \<open>generate_table_of_contents_io\<close> is the function with its calls of
  \<^verbatim>\<open>print\<close>, each of which may raise.
\<close>

subsection \<open>Characters\<close>

abbreviation LF :: char where "LF \<equiv> CHR 0x0A"
abbreviation CR :: char where "CR \<equiv> CHR 0x0D"
abbreviation HASH :: char where "HASH \<equiv> CHR ''#''"
abbreviation HYPHEN :: char where "HYPHEN \<equiv> CHR ''-''"

definition code :: "char \<Rightarrow> nat" where
  "code c = of_char c"

text \<open>\<^verbatim>\<open>\s\<close>: tab to carriage return, the separators 28 to 31, space, NEL, no-break space.\<close>

definition isspace :: "char \<Rightarrow> bool" where
  "isspace c = (let n = code c in
     (9 \<le> n \<and> n \<le> 13) \<or> (28 \<le> n \<and> n \<le> 32) \<or> n = 133 \<or> n = 160)"

text \<open>\<^verbatim>\<open>str.isalpha\<close>: the letters.\<close>

definition isalpha :: "char \<Rightarrow> bool" where
  "isalpha c = (let n = code c in
     (65 \<le> n \<and> n \<le> 90) \<or> (97 \<le> n \<and> n \<le> 122) \<or> n = 170 \<or> n = 181 \<or> n = 186 \<or>
     (192 \<le> n \<and> n \<le> 214) \<or> (216 \<le> n \<and> n \<le> 246) \<or> (248 \<le> n \<and> n \<le> 255))"

text \<open>\<^verbatim>\<open>str.isnumeric\<close>: the decimal digits, superscript digits and vulgar fractions.\<close>

definition isnumeric :: "char \<Rightarrow> bool" where
  "isnumeric c = (let n = code c in
     (48 \<le> n \<and> n \<le> 57) \<or> n = 178 \<or> n = 179 \<or> n = 185 \<or> (188 \<le> n \<and> n \<le> 190))"

definition isalnum :: "char \<Rightarrow> bool" where
  "isalnum c = (isalpha c \<or> isnumeric c)"

text \<open>\<^verbatim>\<open>\w\<close>: the alphanumeric characters and the underscore.\<close>

definition is_word :: "char \<Rightarrow> bool" where
  "is_word c = (isalnum c \<or> c = CHR ''_'')"

text \<open>\<^verbatim>\<open>str.lower\<close>, one character at a time.\<close>

definition lower_char :: "char \<Rightarrow> char" where
  "lower_char c = (let n = code c in
     if (65 \<le> n \<and> n \<le> 90) \<or> (192 \<le> n \<and> n \<le> 214) \<or> (216 \<le> n \<and> n \<le> 222)
     then char_of (n + 32) else c)"

definition lower :: "string \<Rightarrow> string" where
  "lower s = map lower_char s"

text \<open>The line boundaries of \<^verbatim>\<open>str.splitlines\<close>.\<close>

definition is_linebreak :: "char \<Rightarrow> bool" where
  "is_linebreak c = (let n = code c in
     (10 \<le> n \<and> n \<le> 13) \<or> (28 \<le> n \<and> n \<le> 30) \<or> n = 133)"

subsection \<open>Library functions on strings\<close>

text \<open>
  \<^verbatim>\<open>str.splitlines()\<close>: the lines without their terminators; a carriage return
  followed by a line feed is one terminator; no empty last line after a final terminator.
\<close>

fun splitlines :: "string \<Rightarrow> string list" where
  "splitlines [] = []"
| "splitlines (c # cs) =
     (if c = CR then
        (case cs of
           [] \<Rightarrow> [[]]
         | d # ds \<Rightarrow> if d = LF then [] # splitlines ds else [] # splitlines cs)
      else if is_linebreak c then [] # splitlines cs
      else (case splitlines cs of
              [] \<Rightarrow> [[c]]
            | l # ls \<Rightarrow> (c # l) # ls))"

text \<open>\<^verbatim>\<open>"\n".join(xs)\<close>.\<close>

fun join_nl :: "string list \<Rightarrow> string" where
  "join_nl [] = []"
| "join_nl [x] = x"
| "join_nl (x # y # ys) = x @ LF # join_nl (y # ys)"

text \<open>
  \<^verbatim>\<open>s.split("\n")\<close>, the inverse of the join: the lines of a string as separated
  by line feeds alone. The program does not call it; it reads the lines of the output.
\<close>

fun split_nl :: "string \<Rightarrow> string list" where
  "split_nl [] = [[]]"
| "split_nl (c # cs) =
     (if c = LF then [] # split_nl cs
      else (case split_nl cs of
              [] \<Rightarrow> [[c]]
            | l # ls \<Rightarrow> (c # l) # ls))"

subsection \<open>The heading pattern\<close>

text \<open>
  One attempt of \<^verbatim>\<open>^(#+\s+(.*))$\<close> at a position where \<^verbatim>\<open>^\<close> holds. Each
  quantifier is greedy and the first attempt succeeds whenever any does: after the
  longest run of \<^verbatim>\<open>#\<close> a shorter run is followed by \<^verbatim>\<open>#\<close>, which is no
  whitespace, and after the longest \<^verbatim>\<open>.*\<close> the position is a line feed or the
  end, where \<^verbatim>\<open>$\<close> holds. The result is group 1, group 2 and the unread rest.
\<close>

definition match_heading :: "string \<Rightarrow> (string \<times> string \<times> string) option" where
  "match_heading s =
     (let hs = takeWhile (\<lambda>c. c = HASH) s;
          r1 = dropWhile (\<lambda>c. c = HASH) s;
          ws = takeWhile isspace r1;
          r2 = dropWhile isspace r1;
          txt = takeWhile (\<lambda>c. c \<noteq> LF) r2;
          rest = dropWhile (\<lambda>c. c \<noteq> LF) r2
      in if hs = [] \<or> ws = [] then None else Some (hs @ ws @ txt, txt, rest))"

text \<open>
  \<^verbatim>\<open>re.findall\<close> with \<^verbatim>\<open>re.MULTILINE\<close>: the scan from left to right. The flag
  says whether \<^verbatim>\<open>^\<close> holds at the current position (the start of the string or
  just after a line feed). After a match the scan goes on behind it.
\<close>

function findall_headings :: "bool \<Rightarrow> string \<Rightarrow> (string \<times> string) list" where
  "findall_headings bol [] = []"
| "findall_headings bol (c # cs) =
     (if bol then
        (case match_heading (c # cs) of
           Some (full, txt, rest) \<Rightarrow> (full, txt) # findall_headings (last full = LF) rest
         | None \<Rightarrow> findall_headings (c = LF) cs)
      else findall_headings (c = LF) cs)"
  by pat_completeness auto

lemma match_heading_rest_shorter:
  assumes "match_heading s = Some (full, txt, rest)"
  shows "length rest < length s"
proof -
  let ?r1 = "dropWhile (\<lambda>c. c = HASH) s"
  let ?r2 = "dropWhile isspace ?r1"
  from assms have hs: "takeWhile (\<lambda>c. c = HASH) s \<noteq> []"
    and rest: "rest = dropWhile (\<lambda>c. c \<noteq> LF) ?r2"
    by (auto simp: match_heading_def Let_def split: if_splits)
  have "length s = length (takeWhile (\<lambda>c. c = HASH) s) + length ?r1"
    by (metis length_append takeWhile_dropWhile_id)
  with hs have "length ?r1 < length s" by simp
  moreover have "length ?r2 \<le> length ?r1" by (rule length_dropWhile_le)
  moreover have "length rest \<le> length ?r2" unfolding rest by (rule length_dropWhile_le)
  ultimately show ?thesis by linarith
qed

termination findall_headings
  by (relation "measure (\<lambda>(bol, s). length s)")
     (auto dest: match_heading_rest_shorter)

subsection \<open>The generator\<close>

text \<open>\<^verbatim>\<open>re.sub(r'[^\w\s-]', '', t)\<close>: the characters outside the class are deleted.\<close>

definition strip_chars :: "string \<Rightarrow> string" where
  "strip_chars t = filter (\<lambda>c. is_word c \<or> isspace c \<or> c = HYPHEN) t"

text \<open>\<^verbatim>\<open>re.sub(r'\s+', '-', t)\<close>: each longest run of whitespace becomes one hyphen.\<close>

function sub_ws :: "string \<Rightarrow> string" where
  "sub_ws [] = []"
| "sub_ws (c # cs) =
     (if isspace c then HYPHEN # sub_ws (dropWhile isspace cs) else c # sub_ws cs)"
  by pat_completeness auto

termination sub_ws
  by (relation "measure length") (auto simp: less_Suc_eq_le length_dropWhile_le)

definition link_text :: "string \<Rightarrow> string" where
  "link_text t = sub_ws (strip_chars (lower t))"

text \<open>\<^verbatim>\<open>heading[0].count('#')\<close>.\<close>

definition level :: "string \<times> string \<Rightarrow> nat" where
  "level heading = length (filter (\<lambda>c. c = HASH) (fst heading))"

definition indentation :: "string \<times> string \<Rightarrow> string" where
  "indentation heading = concat (replicate (level heading - 1) ''  '')"

text \<open>The loop body: what one heading appends to \<^verbatim>\<open>toc\<close>.\<close>

definition toc_entry :: "string \<times> string \<Rightarrow> string" where
  "toc_entry heading =
     (if level heading > 1 \<and> snd heading \<noteq> ''Table of Contents''
      then indentation heading @ ''- ['' @ snd heading @ ''](#'' @ link_text (snd heading) @ '')'' @ [LF]
      else [])"

definition headings :: "string \<Rightarrow> (string \<times> string) list" where
  "headings markdown_content = findall_headings True markdown_content"

definition toc :: "string \<Rightarrow> string" where
  "toc markdown_content =
     foldl (\<lambda>acc heading. acc @ toc_entry heading)
       (''## Table of Contents'' @ [LF]) (headings markdown_content)"

definition toc_lines :: "string \<Rightarrow> string list" where
  "toc_lines markdown_content = splitlines (toc markdown_content)"

definition generate_table_of_contents :: "string \<Rightarrow> string" where
  "generate_table_of_contents markdown_content =
     (let ls = splitlines markdown_content
      in join_nl (take 1 ls @ toc_lines markdown_content @ drop 1 ls))"

subsection \<open>The generator with its diagnostic output\<close>






subsection \<open>The slug as the specification words it\<close>

text \<open>
  The specification's derivation of the slug, for comparison with \<open>link_text\<close>:
  lowercase the text, delete every character outside a class, then replace every run
  of whitespace with a single hyphen. The class is a parameter; \<open>spec_class\<close> is
  the one the specification names (letter, digit, whitespace, hyphen). The runs are
  collapsed in one pass that remembers whether the previous character was whitespace.
\<close>

definition spec_class :: "char \<Rightarrow> bool" where
  "spec_class c = (isalpha c \<or> isnumeric c \<or> isspace c \<or> c = HYPHEN)"

fun collapse_runs :: "bool \<Rightarrow> string \<Rightarrow> string" where
  "collapse_runs prev [] = []"
| "collapse_runs prev (c # cs) =
     (if isspace c then (if prev then collapse_runs True cs else HYPHEN # collapse_runs True cs)
      else c # collapse_runs False cs)"

definition spec_slug :: "(char \<Rightarrow> bool) \<Rightarrow> string \<Rightarrow> string" where
  "spec_slug keep t = collapse_runs False (filter keep (lower t))"

section \<open>Properties of the library functions\<close>

subsection \<open>Character classes\<close>

lemma code_less: "code c < 256"
  by (simp add: code_def)

lemma lower_char_idem: "lower_char (lower_char c) = lower_char c"
  using code_less [of c] by (auto simp: lower_char_def code_def Let_def)

lemma word_not_space: "is_word c \<Longrightarrow> \<not> isspace c"
  by (auto simp: is_word_def isalnum_def isalpha_def isnumeric_def isspace_def code_def Let_def)

lemma hyphen_not_space: "\<not> isspace HYPHEN"
  by (simp add: isspace_def code_def)

lemma LF_linebreak: "is_linebreak LF"
  by (simp add: is_linebreak_def code_def)

lemma CR_linebreak: "is_linebreak CR"
  by (simp add: is_linebreak_def code_def)


subsection \<open>Lines\<close>

lemma splitlines_CR_LF: "splitlines (CR # LF # ds) = [] # splitlines ds"
  by simp

lemma splitlines_CR: "cs = [] \<or> hd cs \<noteq> LF \<Longrightarrow> splitlines (CR # cs) = [] # splitlines cs"
  by (cases cs) simp_all

lemma splitlines_break:
  "is_linebreak c \<Longrightarrow> splitlines (c # cs) = [] # splitlines (if c = CR \<and> cs \<noteq> [] \<and> hd cs = LF then tl cs else cs)"
  by (cases cs) simp_all

lemma splitlines_char:
  "\<not> is_linebreak c \<Longrightarrow>
   splitlines (c # cs) = (case splitlines cs of [] \<Rightarrow> [[c]] | l # ls \<Rightarrow> (c # l) # ls)"
  using CR_linebreak by auto

lemma splitlines_no_break:
  "l \<in> set (splitlines s) \<Longrightarrow> c \<in> set l \<Longrightarrow> \<not> is_linebreak c"
proof (induction s arbitrary: l rule: length_induct)
  case (1 s)
  note IH = "1.IH" and mem = "1.prems"
  show ?case
  proof (cases s)
    case Nil
    with mem show ?thesis by simp
  next
    case (Cons d ds)
    show ?thesis
    proof (cases "is_linebreak d")
      case True
      let ?r = "if d = CR \<and> ds \<noteq> [] \<and> hd ds = LF then tl ds else ds"
      have len: "length ?r < length s" using Cons by (cases ds) auto
      have "splitlines s = [] # splitlines ?r"
        unfolding Cons by (rule splitlines_break [OF True])
      with mem have "l \<in> set (splitlines ?r)" by auto
      with IH len mem(2) show ?thesis by blast
    next
      case False
      have eq: "splitlines s = (case splitlines ds of [] \<Rightarrow> [[d]] | l # ls \<Rightarrow> (d # l) # ls)"
        unfolding Cons by (rule splitlines_char [OF False])
      have len: "length ds < length s" using Cons by simp
      show ?thesis
      proof (cases "splitlines ds")
        case Nil
        with eq mem False show ?thesis by auto
      next
        case (Cons l' ls)
        with eq mem have "l = d # l' \<or> l \<in> set ls" by auto
        then show ?thesis
        proof
          assume "l = d # l'"
          with mem(2) have "c = d \<or> c \<in> set l'" by auto
          moreover have "l' \<in> set (splitlines ds)" using Cons by simp
          ultimately show ?thesis using False IH len by blast
        next
          assume "l \<in> set ls"
          then have "l \<in> set (splitlines ds)" using Cons by simp
          with IH len mem(2) show ?thesis by blast
        qed
      qed
    qed
  qed
qed

lemma splitlines_no_LF: "l \<in> set (splitlines s) \<Longrightarrow> LF \<notin> set l"
  using splitlines_no_break LF_linebreak by blast

lemma splitlines_nonempty: "s \<noteq> [] \<Longrightarrow> splitlines s \<noteq> []"
proof (cases s)
  case Nil
  assume "s \<noteq> []"
  with Nil show ?thesis by simp
next
  case (Cons d ds)
  show ?thesis
  proof (cases "is_linebreak d")
    case True
    show ?thesis unfolding Cons splitlines_break [OF True] by simp
  next
    case False
    show ?thesis unfolding Cons splitlines_char [OF False] by (simp split: list.splits)
  qed
qed

declare splitlines.simps(2) [simp del]

lemma split_nl_nonempty: "split_nl s \<noteq> []"
  by (induction s) (auto split: list.splits)

lemma split_nl_no_LF: "LF \<notin> set x \<Longrightarrow> split_nl x = [x]"
  by (induction x) auto

lemma split_nl_append: "LF \<notin> set x \<Longrightarrow> split_nl (x @ LF # r) = x # split_nl r"
  by (induction x) auto

lemma split_join:
  "xs \<noteq> [] \<Longrightarrow> \<forall>x\<in>set xs. LF \<notin> set x \<Longrightarrow> split_nl (join_nl xs) = xs"
  by (induction xs rule: join_nl.induct) (auto simp: split_nl_no_LF split_nl_append)

lemma splitlines_first:
  "\<forall>c\<in>set l. \<not> is_linebreak c \<Longrightarrow> splitlines (l @ LF # r) = l # splitlines r"
proof (induction l)
  case Nil
  then show ?case by (simp add: splitlines_break LF_linebreak)
next
  case (Cons a l)
  then show ?case by (simp add: splitlines_char)
qed

lemma splitlines_last_nonempty:
  "\<not> is_linebreak c \<Longrightarrow> last (splitlines (s @ [c, LF])) \<noteq> []"
proof (induction s rule: length_induct)
  case (1 s)
  note IH = "1.IH" and c = "1.prems"
  have base: "splitlines [c, LF] = [[c]]"
    using c by (simp add: splitlines_char splitlines_break LF_linebreak)
  show ?case
  proof (cases s)
    case Nil
    with base show ?thesis by simp
  next
    case (Cons d ds)
    show ?thesis
    proof (cases "is_linebreak d")
      case True
      let ?r = "if d = CR \<and> ds \<noteq> [] \<and> hd ds = LF then tl ds else ds"
      have len: "length ?r < length s" using Cons by (cases ds) auto
      have "(if d = CR \<and> ds @ [c, LF] \<noteq> [] \<and> hd (ds @ [c, LF]) = LF
             then tl (ds @ [c, LF]) else ds @ [c, LF]) = ?r @ [c, LF]"
        using c LF_linebreak by (cases ds) auto
      then have "splitlines (s @ [c, LF]) = [] # splitlines (?r @ [c, LF])"
        unfolding Cons using splitlines_break [OF True, of "ds @ [c, LF]"] by simp
      moreover have "splitlines (?r @ [c, LF]) \<noteq> []"
        by (rule splitlines_nonempty) simp
      moreover have "last (splitlines (?r @ [c, LF])) \<noteq> []"
        using IH len c by blast
      ultimately show ?thesis by simp
    next
      case False
      have len: "length ds < length s" using Cons by simp
      have ne: "splitlines (ds @ [c, LF]) \<noteq> []"
        by (rule splitlines_nonempty) simp
      have l: "last (splitlines (ds @ [c, LF])) \<noteq> []"
        using IH len c by blast
      have "splitlines (s @ [c, LF]) =
          (case splitlines (ds @ [c, LF]) of [] \<Rightarrow> [[d]] | l # ls \<Rightarrow> (d # l) # ls)"
        unfolding Cons using splitlines_char [OF False, of "ds @ [c, LF]"] by simp
      with ne l show ?thesis by (cases "splitlines (ds @ [c, LF])") (auto split: if_splits)
    qed
  qed
qed

lemma join_nl_Nil: "(join_nl xs = []) = (xs = [] \<or> xs = [[]])"
  by (induction xs rule: join_nl.induct) auto

lemma last_join:
  "xs \<noteq> [] \<Longrightarrow> \<forall>x\<in>set xs. LF \<notin> set x \<Longrightarrow>
   (join_nl xs \<noteq> [] \<and> last (join_nl xs) = LF) = (2 \<le> length xs \<and> last xs = [])"
proof (induction xs rule: join_nl.induct)
  case 1
  then show ?case by simp
next
  case (2 x)
  then have "x \<noteq> [] \<Longrightarrow> last x \<noteq> LF" using last_in_set by fastforce
  then show ?case by auto
next
  case (3 x y ys)
  have IH: "(join_nl (y # ys) \<noteq> [] \<and> last (join_nl (y # ys)) = LF)
        = (2 \<le> length (y # ys) \<and> last (y # ys) = [])"
    using 3 by simp
  have l: "last (join_nl (x # y # ys)) = (if join_nl (y # ys) = [] then LF else last (join_nl (y # ys)))"
    by simp
  show ?case
  proof (cases "join_nl (y # ys) = []")
    case True
    then have "y = []" "ys = []" by (simp_all add: join_nl_Nil)
    then show ?thesis by simp
  next
    case False
    then have "ys \<noteq> [] \<or> y \<noteq> []" by (auto simp: join_nl_Nil)
    with False IH l show ?thesis by (cases ys) auto
  qed
qed

section \<open>Properties of the generator\<close>

subsection \<open>Headings and the table\<close>

lemma match_heading_shape:
  assumes "match_heading s = Some (full, txt, rest)"
  shows "\<exists>k ws. 1 \<le> k \<and> ws \<noteq> [] \<and> (\<forall>c\<in>set ws. isspace c) \<and>
           full = replicate k HASH @ ws @ txt \<and> s = full @ rest"
    and "txt = [] \<or> \<not> isspace (hd txt)"
    and "LF \<notin> set txt"
    and "rest = [] \<or> hd rest = LF"
proof -
  let ?hs = "takeWhile (\<lambda>c. c = HASH) s"
  let ?r1 = "dropWhile (\<lambda>c. c = HASH) s"
  let ?ws = "takeWhile isspace ?r1"
  let ?r2 = "dropWhile isspace ?r1"
  from assms have hs: "?hs \<noteq> []" and ws: "?ws \<noteq> []"
    and fl: "full = ?hs @ ?ws @ txt"
    and tx: "txt = takeWhile (\<lambda>c. c \<noteq> LF) ?r2"
    and rest: "rest = dropWhile (\<lambda>c. c \<noteq> LF) ?r2"
    by (auto simp: match_heading_def Let_def split: if_splits)
  have "\<forall>c\<in>set ?hs. c = HASH" by (auto dest: set_takeWhileD)
  then have rep: "?hs = replicate (length ?hs) HASH"
    by (simp add: replicate_length_same)
  have k: "1 \<le> length ?hs" using hs by (cases ?hs) auto
  have sp: "\<forall>c\<in>set ?ws. isspace c" by (auto dest: set_takeWhileD)
  have "s = ?hs @ ?ws @ txt @ rest" unfolding tx rest by simp
  then have "s = full @ rest" using fl by simp
  with rep k ws sp fl
  show "\<exists>k ws. 1 \<le> k \<and> ws \<noteq> [] \<and> (\<forall>c\<in>set ws. isspace c) \<and>
           full = replicate k HASH @ ws @ txt \<and> s = full @ rest"
    by metis
  show "txt = [] \<or> \<not> isspace (hd txt)"
  proof (cases "?r2")
    case Nil
    show ?thesis unfolding tx Nil by simp
  next
    case (Cons a as)
    then have "\<not> isspace a" using hd_dropWhile [of isspace ?r1] by auto
    with Cons tx show ?thesis by auto
  qed
  show "LF \<notin> set txt" unfolding tx by (auto dest: set_takeWhileD)
  show "rest = [] \<or> hd rest = LF"
    unfolding rest using hd_dropWhile [of "\<lambda>c. c \<noteq> LF" ?r2] by auto
qed

lemma findall_headings_match:
  "h \<in> set (findall_headings bol s) \<Longrightarrow>
   \<exists>s' rest. match_heading s' = Some (fst h, snd h, rest)"
proof (induction bol s rule: findall_headings.induct)
  case (1 bol)
  then show ?case by simp
next
  case (2 bol c cs)
  show ?case
  proof (cases "bol \<and> match_heading (c # cs) \<noteq> None")
    case True
    then obtain fl tx rest where m: "match_heading (c # cs) = Some (fl, tx, rest)"
      by auto
    with True 2(4) have "h = (fl, tx) \<or> h \<in> set (findall_headings (last fl = LF) rest)"
      by simp
    then show ?thesis
    proof
      assume "h = (fl, tx)"
      with m show ?thesis by auto
    next
      assume "h \<in> set (findall_headings (last fl = LF) rest)"
      with True m 2(2) show ?thesis by blast
    qed
  next
    case False
    show ?thesis
    proof (cases bol)
      case True
      with False have n: "match_heading (c # cs) = None" by blast
      with True 2(4) have "h \<in> set (findall_headings (c = LF) cs)" by simp
      with True n 2(1) show ?thesis by blast
    next
      case False
      with 2(4) have "h \<in> set (findall_headings (c = LF) cs)" by simp
      with False 2(3) show ?thesis by blast
    qed
  qed
qed

lemma foldl_append_concat:
  "foldl (\<lambda>acc h. acc @ f h) a hs = a @ concat (map f hs)"
  by (induction hs arbitrary: a) auto

lemma toc_concat:
  "toc s = ''## Table of Contents'' @ [LF] @ concat (map toc_entry (headings s))"
  by (simp add: toc_def foldl_append_concat)

lemma close_paren_no_break: "\<not> is_linebreak (CHR '')'')"
  by (simp add: is_linebreak_def code_def)

lemma letter_s_no_break: "\<not> is_linebreak (CHR ''s'')"
  by (simp add: is_linebreak_def code_def)

lemma toc_entry_end:
  "toc_entry h = [] \<or> (\<exists>t. toc_entry h = t @ [CHR '')'', LF])"
  by (auto simp: toc_entry_def)

lemma concat_entries_end:
  "concat (map toc_entry hs) = [] \<or> (\<exists>t. concat (map toc_entry hs) = t @ [CHR '')'', LF])"
proof (induction hs rule: rev_induct)
  case Nil
  then show ?case by simp
next
  case (snoc h hs)
  from toc_entry_end [of h] show ?case
  proof
    assume "toc_entry h = []"
    with snoc show ?thesis by simp
  next
    assume "\<exists>t. toc_entry h = t @ [CHR '')'', LF]"
    then obtain t where "toc_entry h = t @ [CHR '')'', LF]" ..
    then have "concat (map toc_entry (hs @ [h])) = (concat (map toc_entry hs) @ t) @ [CHR '')'', LF]"
      by simp
    then show ?thesis by blast
  qed
qed

lemma toc_end: "\<exists>t c. toc s = t @ [c, LF] \<and> \<not> is_linebreak c"
proof -
  from concat_entries_end [of "headings s"] show ?thesis
  proof
    assume "concat (map toc_entry (headings s)) = []"
    then have "toc s = ''## Table of Content'' @ [CHR ''s'', LF]"
      by (simp add: toc_concat)
    with letter_s_no_break show ?thesis by blast
  next
    assume "\<exists>t. concat (map toc_entry (headings s)) = t @ [CHR '')'', LF]"
    then obtain t where "concat (map toc_entry (headings s)) = t @ [CHR '')'', LF]" ..
    then have "toc s = (''## Table of Contents'' @ [LF] @ t) @ [CHR '')'', LF]"
      by (simp add: toc_concat)
    with close_paren_no_break show ?thesis by blast
  qed
qed

lemma toc_lines_nonempty: "toc_lines s \<noteq> []"
proof -
  obtain t c where "toc s = t @ [c, LF]" using toc_end by blast
  then have "toc s \<noteq> []" by simp
  then show ?thesis unfolding toc_lines_def by (rule splitlines_nonempty)
qed

lemma toc_lines_last: "last (toc_lines s) \<noteq> []"
proof -
  obtain t c where "toc s = t @ [c, LF]" "\<not> is_linebreak c" using toc_end by blast
  then show ?thesis unfolding toc_lines_def by (simp add: splitlines_last_nonempty)
qed

lemma output_lines_no_LF:
  "\<forall>x\<in>set (take 1 (splitlines s) @ toc_lines s @ drop 1 (splitlines s)). LF \<notin> set x"
  by (auto simp: toc_lines_def dest: in_set_takeD in_set_dropD splitlines_no_LF)

lemma output_lines_nonempty:
  "take 1 (splitlines s) @ toc_lines s @ drop 1 (splitlines s) \<noteq> []"
  by (simp add: toc_lines_nonempty)

subsection \<open>The slug\<close>

lemma lower_char_changes_letters: "lower_char c \<noteq> c \<Longrightarrow> isalpha c"
  by (auto simp: lower_char_def isalpha_def Let_def split: if_splits)

lemma lower_char_hyphen: "lower_char HYPHEN = HYPHEN"
  by (simp add: lower_char_def code_def)

lemma sub_ws_no_space: "\<forall>c\<in>set t. \<not> isspace c \<Longrightarrow> sub_ws t = t"
  by (induction t) auto

lemma sub_ws_chars:
  "c \<in> set (sub_ws t) \<Longrightarrow> c = HYPHEN \<or> (c \<in> set t \<and> \<not> isspace c)"
proof (induction t rule: sub_ws.induct)
  case 1
  then show ?case by simp
next
  case (2 d ds)
  show ?case
  proof (cases "isspace d")
    case True
    with 2 show ?thesis by (auto dest: set_dropWhileD)
  next
    case False
    with 2 show ?thesis by auto
  qed
qed

lemma collapse_runs_sub_ws:
  "collapse_runs True t = sub_ws (dropWhile isspace t) \<and> collapse_runs False t = sub_ws t"
  by (induction t) auto

lemma link_text_chars:
  assumes "c \<in> set (link_text t)"
  shows "(is_word c \<or> c = HYPHEN) \<and> \<not> isspace c \<and> lower_char c = c"
proof -
  from assms sub_ws_chars
  have "c = HYPHEN \<or> (c \<in> set (strip_chars (lower t)) \<and> \<not> isspace c)"
    unfolding link_text_def by blast
  then show ?thesis
  proof
    assume "c = HYPHEN"
    then show ?thesis by (simp add: hyphen_not_space lower_char_hyphen)
  next
    assume a: "c \<in> set (strip_chars (lower t)) \<and> \<not> isspace c"
    then obtain d where "c = lower_char d"
      by (auto simp: strip_chars_def lower_def)
    then have "lower_char c = c" by (simp add: lower_char_idem)
    with a show ?thesis by (auto simp: strip_chars_def)
  qed
qed

lemma link_text_idem: "link_text (link_text t) = link_text t"
proof -
  let ?u = "link_text t"
  have 1: "lower ?u = ?u"
    unfolding lower_def using link_text_chars [of _ t] by (simp add: map_idI)
  have 2: "strip_chars ?u = ?u"
    unfolding strip_chars_def using link_text_chars [of _ t] by (simp add: filter_id_conv)
  have 3: "sub_ws ?u = ?u"
    using link_text_chars [of _ t] by (simp add: sub_ws_no_space)
  have "link_text ?u = sub_ws (strip_chars (lower ?u))" by (simp add: link_text_def)
  with 1 2 3 show ?thesis by simp
qed

lemma link_text_spec:
  "link_text t = spec_slug (\<lambda>c. spec_class c \<or> c = CHR ''_'') t"
proof -
  have "(\<lambda>c. is_word c \<or> isspace c \<or> c = HYPHEN) = (\<lambda>c. spec_class c \<or> c = CHR ''_'')"
    by (auto simp: is_word_def isalnum_def spec_class_def)
  then show ?thesis
    by (simp add: link_text_def spec_slug_def strip_chars_def collapse_runs_sub_ws)
qed

lemma link_text_empty:
  assumes "\<forall>c\<in>set t. \<not> is_word c \<and> \<not> isspace c \<and> c \<noteq> HYPHEN"
  shows "link_text t = []"
proof -
  have "lower t = t"
    unfolding lower_def
  proof (rule map_idI)
    fix c assume "c \<in> set t"
    with assms have "\<not> is_word c" by blast
    then have "\<not> isalpha c" by (simp add: is_word_def isalnum_def)
    with lower_char_changes_letters show "lower_char c = c" by blast
  qed
  moreover have "strip_chars t = []"
    unfolding strip_chars_def using assms by (simp add: filter_empty_conv)
  ultimately show ?thesis by (simp add: link_text_def)
qed







subsection \<open>The output\<close>

lemma toc_lines_no_headings:
  assumes "headings s = []"
  shows "toc_lines s = [''## Table of Contents'']"
proof -
  have "toc s = ''## Table of Contents'' @ [LF]" using assms by (simp add: toc_concat)
  then have "toc_lines s = splitlines (''## Table of Contents'' @ [LF])"
    by (simp add: toc_lines_def)
  also have "\<dots> = [''## Table of Contents'']" by code_simp
  finally show ?thesis .
qed

lemma generate_join:
  "generate_table_of_contents s =
     join_nl (take 1 (splitlines s) @ toc_lines s @ drop 1 (splitlines s))"
  by (simp add: generate_table_of_contents_def Let_def)

lemma output_last_line:
  "(2 \<le> length (take 1 (splitlines s) @ toc_lines s @ drop 1 (splitlines s)) \<and>
    last (take 1 (splitlines s) @ toc_lines s @ drop 1 (splitlines s)) = []) =
   (2 \<le> length (splitlines s) \<and> last (splitlines s) = [])"
proof (cases "splitlines s")
  case Nil
  then show ?thesis using toc_lines_last [of s] by simp
next
  case (Cons l0 ls)
  show ?thesis
  proof (cases ls)
    case Nil
    with Cons show ?thesis using toc_lines_last [of s] toc_lines_nonempty [of s] by simp
  next
    case (Cons l1 ls')
    with \<open>splitlines s = l0 # ls\<close> show ?thesis by simp
  qed
qed

subsection \<open>The diagnostic output and the lines of the table\<close>




lemma splitlines_append_LF:
  "splitlines (a @ LF # b) = splitlines (a @ [LF]) @ splitlines b"
proof (induction a rule: length_induct)
  case (1 a)
  note IH = "1.IH"
  show ?case
  proof (cases a)
    case Nil
    then show ?thesis by (simp add: splitlines_break LF_linebreak)
  next
    case (Cons d ds)
    show ?thesis
    proof (cases "is_linebreak d")
      case True
      show ?thesis
      proof (cases "d = CR \<and> ds = []")
        case True
        then show ?thesis unfolding Cons by (simp add: splitlines_CR_LF)
      next
        case False
        let ?r = "if d = CR \<and> ds \<noteq> [] \<and> hd ds = LF then tl ds else ds"
        have len: "length ?r < length a" using Cons by (cases ds) auto
        have 1: "(if d = CR \<and> ds @ LF # b \<noteq> [] \<and> hd (ds @ LF # b) = LF
              then tl (ds @ LF # b) else ds @ LF # b) = ?r @ LF # b"
          using False by (cases ds) auto
        have 2: "(if d = CR \<and> ds @ [LF] \<noteq> [] \<and> hd (ds @ [LF]) = LF
              then tl (ds @ [LF]) else ds @ [LF]) = ?r @ [LF]"
          using False by (cases ds) auto
        have "splitlines (a @ LF # b) = [] # splitlines (?r @ LF # b)"
          unfolding Cons using splitlines_break [OF True, of "ds @ LF # b"] 1 by simp
        moreover have "splitlines (a @ [LF]) = [] # splitlines (?r @ [LF])"
          unfolding Cons using splitlines_break [OF True, of "ds @ [LF]"] 2 by simp
        moreover have "splitlines (?r @ LF # b) = splitlines (?r @ [LF]) @ splitlines b"
          using IH len by blast
        ultimately show ?thesis by simp
      qed
    next
      case False
      have len: "length ds < length a" using Cons by simp
      have ih: "splitlines (ds @ LF # b) = splitlines (ds @ [LF]) @ splitlines b"
        using IH len by blast
      have ne: "splitlines (ds @ [LF]) \<noteq> []" by (rule splitlines_nonempty) simp
      have "splitlines (a @ LF # b) =
          (case splitlines (ds @ LF # b) of [] \<Rightarrow> [[d]] | l # ls \<Rightarrow> (d # l) # ls)"
        unfolding Cons using splitlines_char [OF False, of "ds @ LF # b"] by simp
      moreover have "splitlines (a @ [LF]) =
          (case splitlines (ds @ [LF]) of [] \<Rightarrow> [[d]] | l # ls \<Rightarrow> (d # l) # ls)"
        unfolding Cons using splitlines_char [OF False, of "ds @ [LF]"] by simp
      ultimately show ?thesis using ih ne by (cases "splitlines (ds @ [LF])") auto
    qed
  qed
qed

lemma splitlines_single:
  "\<forall>c\<in>set l. \<not> is_linebreak c \<Longrightarrow> splitlines (l @ [LF]) = [l]"
  using splitlines_first [of l "[]"] by simp

lemma toc_entry_ends_LF: "toc_entry h = [] \<or> (\<exists>e. toc_entry h = e @ [LF])"
  using toc_entry_end [of h] by auto

lemma count_entry_lines:
  assumes E: "toc_entry h = l @ [LF]" and l: "\<forall>c\<in>set l. \<not> is_linebreak c"
  shows "count_list (splitlines (a @ [LF])) l + count_list hs h
           \<le> count_list (splitlines ((a @ [LF]) @ concat (map toc_entry hs))) l"
proof (induction hs arbitrary: a)
  case Nil
  then show ?case by simp
next
  case (Cons x xs)
  show ?case
  proof (cases "toc_entry x = []")
    case True
    with E have "x \<noteq> h" by auto
    with True Cons [of a] show ?thesis by simp
  next
    case False
    then obtain e where e: "toc_entry x = e @ [LF]" using toc_entry_ends_LF [of x] by blast
    have step: "splitlines ((a @ LF # e) @ [LF]) = splitlines (a @ [LF]) @ splitlines (e @ [LF])"
      using splitlines_append_LF [of a "e @ [LF]"] by simp
    have cat: "(a @ [LF]) @ concat (map toc_entry (x # xs)) =
        ((a @ LF # e) @ [LF]) @ concat (map toc_entry xs)"
      using e by simp
    have ih: "count_list (splitlines ((a @ LF # e) @ [LF])) l + count_list xs h
        \<le> count_list (splitlines (((a @ LF # e) @ [LF]) @ concat (map toc_entry xs))) l"
      by (rule Cons)
    show ?thesis
    proof (cases "x = h")
      case True
      with e E have "e = l" by simp
      with l have "splitlines (e @ [LF]) = [l]" by (simp add: splitlines_single)
      with step have "count_list (splitlines ((a @ LF # e) @ [LF])) l
          = count_list (splitlines (a @ [LF])) l + 1" by simp
      with ih True show ?thesis unfolding cat by simp
    next
      case False
      from step have "count_list (splitlines (a @ [LF])) l
          \<le> count_list (splitlines ((a @ LF # e) @ [LF])) l" by simp
      with ih False show ?thesis unfolding cat by simp
    qed
  qed
qed

lemma space_linebreak: "is_linebreak c \<Longrightarrow> isspace c"
  unfolding is_linebreak_def isspace_def Let_def by linarith

lemma indentation_spaces: "c \<in> set (concat (replicate n ''  '')) \<Longrightarrow> c = CHR '' ''"
  by (induction n) auto

lemma space_no_break: "\<not> is_linebreak (CHR '' '')"
  by (simp add: is_linebreak_def code_def)

lemma entry_frame_no_break:
  "\<not> is_linebreak (CHR ''-'')" "\<not> is_linebreak (CHR ''['')" "\<not> is_linebreak (CHR '']'')"
  "\<not> is_linebreak (CHR ''('')" "\<not> is_linebreak (CHR ''#'')" "\<not> is_linebreak (CHR '')'')"
  by (simp_all add: is_linebreak_def code_def)

lemma punctuation_no_break:
  assumes "\<forall>c\<in>set t. \<not> is_word c \<and> \<not> isspace c \<and> c \<noteq> HYPHEN"
  shows "\<forall>c\<in>set (indentation h @ ''- ['' @ t @ ''](#)''). \<not> is_linebreak c"
proof
  fix c assume "c \<in> set (indentation h @ ''- ['' @ t @ ''](#)'')"
  then consider "c \<in> set (indentation h)" | "c \<in> set ''- [''" | "c \<in> set t" | "c \<in> set ''](#)''"
    by auto
  then show "\<not> is_linebreak c"
  proof cases
    case 1
    then have "c = CHR '' ''" unfolding indentation_def by (rule indentation_spaces)
    then show ?thesis by (simp add: space_no_break)
  next
    case 2
    then have "c = CHR ''-'' \<or> c = CHR '' '' \<or> c = CHR ''[''" by simp
    then show ?thesis using entry_frame_no_break space_no_break by blast
  next
    case 3
    with assms have "\<not> isspace c" by blast
    then show ?thesis using space_linebreak by blast
  next
    case 4
    then have "c = CHR '']'' \<or> c = CHR ''('' \<or> c = CHR ''#'' \<or> c = CHR '')''" by simp
    then show ?thesis using entry_frame_no_break by blast
  qed
qed

section \<open>The claims of the specification\<close>

subsection \<open>C1: the level of a heading\<close>

text \<open>
  C1. The level of a heading is meant to be the number of \<^verbatim>\<open>#\<close> at the start of
  its line. The program counts every \<^verbatim>\<open>#\<close> of the whole matched text instead: in
  the document \<^verbatim>\<open># T\<close>, \<^verbatim>\<open>## C# notes\<close> the second heading starts with two
  \<^verbatim>\<open>#\<close> and gets level 3, so its entry is indented by four spaces, not two.
\<close>

theorem level_counts_every_hash:
  "headings (''# T'' @ [LF] @ ''## C# notes'' @ [LF]) =
     [(''# T'', ''T''), (''## C# notes'', ''C# notes'')] \<and>
   length (takeWhile (\<lambda>c. c = HASH) ''## C# notes'') = 2 \<and>
   level (''## C# notes'', ''C# notes'') = 3 \<and>
   toc_lines (''# T'' @ [LF] @ ''## C# notes'' @ [LF]) =
     [''## Table of Contents'', ''    - [C# notes](#c-notes)'']"
  by code_simp

subsection \<open>C2: the worked example\<close>

text \<open>
  C2, as the specification states it: for the document \<^verbatim>\<open># Title\<close>,
  \<^verbatim>\<open>## A\<close>, \<^verbatim>\<open>### B\<close>, \<^verbatim>\<open>## Table of Contents\<close> the entries would be
  \<^verbatim>\<open>- [A](#a)\<close> and \<^verbatim>\<open>  - [B](#b)\<close>. They are not: the indentation is two
  spaces for each level above the first.
\<close>

theorem example_entries_counterexample:
  "drop 1 (toc_lines (''# Title'' @ [LF] @ ''## A'' @ [LF] @ ''### B'' @ [LF] @
       ''## Table of Contents'' @ [LF])) \<noteq> [''- [A](#a)'', ''  - [B](#b)'']"
  by code_simp

text \<open>
  C2, amended: for that document the entries are exactly \<^verbatim>\<open>  - [A](#a)\<close> (two
  leading spaces) and \<^verbatim>\<open>    - [B](#b)\<close> (four leading spaces); the level-1
  heading \<^verbatim>\<open>Title\<close> and the heading \<^verbatim>\<open>Table of Contents\<close> append nothing.
\<close>

theorem example_entries:
  "toc_lines (''# Title'' @ [LF] @ ''## A'' @ [LF] @ ''### B'' @ [LF] @
       ''## Table of Contents'' @ [LF]) =
     [''## Table of Contents'', ''  - [A](#a)'', ''    - [B](#b)''] \<and>
   map toc_entry (headings (''# Title'' @ [LF] @ ''## A'' @ [LF] @ ''### B'' @ [LF] @
       ''## Table of Contents'' @ [LF])) =
     [[], ''  - [A](#a)'' @ [LF], ''    - [B](#b)'' @ [LF], []] \<and>
   generate_table_of_contents (''# Title'' @ [LF] @ ''## A'' @ [LF] @ ''### B'' @ [LF] @
       ''## Table of Contents'' @ [LF]) =
     ''# Title'' @ [LF] @ ''## Table of Contents'' @ [LF] @ ''  - [A](#a)'' @ [LF] @
     ''    - [B](#b)'' @ [LF] @ ''## A'' @ [LF] @ ''### B'' @ [LF] @ ''## Table of Contents''"
  by code_simp

subsection \<open>C3: the original lines are kept\<close>

text \<open>
  C3. For every non-empty document, the lines of the output (the pieces between its
  line feeds) are the first line of the input, then the lines of the table, then the
  remaining lines of the input from the second on, unchanged and in order. The first
  line of the output is the first line of the input, also when the output is read
  with \<^verbatim>\<open>splitlines\<close> as the program reads its input.
\<close>

theorem frame_lines:
  assumes "s \<noteq> []"
  shows "split_nl (generate_table_of_contents s) =
           take 1 (splitlines s) @ toc_lines s @ drop 1 (splitlines s) \<and>
         take 1 (splitlines s) = [hd (splitlines s)] \<and>
         hd (split_nl (generate_table_of_contents s)) = hd (splitlines s) \<and>
         hd (splitlines (generate_table_of_contents s)) = hd (splitlines s)"
proof -
  let ?L = "splitlines s"
  let ?X = "take 1 ?L @ toc_lines s @ drop 1 ?L"
  have gen: "generate_table_of_contents s = join_nl ?X"
    by (simp add: generate_table_of_contents_def Let_def)
  have split: "split_nl (generate_table_of_contents s) = ?X"
    unfolding gen by (rule split_join [OF output_lines_nonempty output_lines_no_LF])
  from assms have "?L \<noteq> []" by (rule splitlines_nonempty)
  then obtain l0 ls where L: "?L = l0 # ls" by (cases ?L) auto
  obtain t0 ts where T: "toc_lines s = t0 # ts"
    using toc_lines_nonempty [of s] by (cases "toc_lines s") auto
  have take: "take 1 ?L = [hd ?L]" using L by simp
  have hd1: "hd (split_nl (generate_table_of_contents s)) = hd ?L"
    unfolding split using L by simp
  have "\<forall>c\<in>set l0. \<not> is_linebreak c"
    using splitlines_no_break [of l0 s] L by simp
  then have "splitlines (l0 @ LF # join_nl (t0 # ts @ ls)) = l0 # splitlines (join_nl (t0 # ts @ ls))"
    by (rule splitlines_first)
  moreover have "generate_table_of_contents s = l0 @ LF # join_nl (t0 # ts @ ls)"
    unfolding gen L T by simp
  ultimately have hd2: "hd (splitlines (generate_table_of_contents s)) = hd ?L"
    using L by simp
  from split take hd1 hd2 show ?thesis by blast
qed

text \<open>
  The frame property at a document with a heading and a blank line.
\<close>

theorem frame_lines_witness:
  "split_nl (generate_table_of_contents (''# T'' @ [LF] @ ''## A'' @ [LF, LF] @ ''x'' @ [LF])) =
     [''# T'', ''## Table of Contents'', ''  - [A](#a)'', ''## A'', '''', ''x'']"
proof -
  let ?s = "''# T'' @ [LF] @ ''## A'' @ [LF, LF] @ ''x'' @ [LF]"
  have "?s \<noteq> []" by simp
  from frame_lines [OF this]
  have "split_nl (generate_table_of_contents ?s) =
      take 1 (splitlines ?s) @ toc_lines ?s @ drop 1 (splitlines ?s)" by blast
  also have "\<dots> = [''# T'', ''## Table of Contents'', ''  - [A](#a)'', ''## A'', '''', ''x'']"
    by code_simp
  finally show ?thesis .
qed

subsection \<open>C4: the derivation of the slug\<close>

text \<open>
  C4, as the specification states it: the slug keeps letters, digits, whitespace and
  hyphens only. The pattern \<^verbatim>\<open>[^\w\s-]\<close> keeps the underscore as well, so
  \<^verbatim>\<open>a_b\<close> has the slug \<^verbatim>\<open>a_b\<close> where the stated derivation gives
  \<^verbatim>\<open>ab\<close>.
\<close>

theorem slug_keeps_underscore_counterexample:
  "link_text ''a_b'' = ''a_b'' \<and> spec_slug spec_class ''a_b'' = ''ab'' \<and>
   link_text ''a_b'' \<noteq> spec_slug spec_class ''a_b''"
  by code_simp

text \<open>
  C4, amended: the slug is the text in lower case, without the characters that are
  neither letter, digit, underscore, whitespace nor hyphen, with every run of
  whitespace replaced by one hyphen; the heading \<^verbatim>\<open>## Hello, World!\<close> has the
  slug \<^verbatim>\<open>hello-world\<close>.
\<close>

theorem slug_derivation:
  "link_text t = spec_slug (\<lambda>c. spec_class c \<or> c = CHR ''_'') t \<and>
   headings ''## Hello, World!'' = [(''## Hello, World!'', ''Hello, World!'')] \<and>
   link_text ''Hello, World!'' = ''hello-world''"
proof -
  have "headings ''## Hello, World!'' = [(''## Hello, World!'', ''Hello, World!'')]"
    by code_simp
  moreover have "link_text ''Hello, World!'' = ''hello-world''"
    by code_simp
  ultimately show ?thesis using link_text_spec [of t] by blast
qed

text \<open>
  The derivation at a text with an underscore, a double space and punctuation.
\<close>

theorem slug_derivation_witness:
  "link_text ''My_Heading  2-a!'' = ''my_heading-2-a''"
proof -
  have "spec_slug (\<lambda>c. spec_class c \<or> c = CHR ''_'') ''My_Heading  2-a!'' = ''my_heading-2-a''"
    by code_simp
  with slug_derivation [of "''My_Heading  2-a!''"] show ?thesis by simp
qed

subsection \<open>C5: a document without headings\<close>

text \<open>
  C5. For a document in which the heading pattern matches nowhere, the output is the
  input's lines with the single line \<^verbatim>\<open>## Table of Contents\<close> inserted after the
  first one.
\<close>

theorem no_headings_toc:
  assumes "headings s = []"
  shows "generate_table_of_contents s =
           join_nl (take 1 (splitlines s) @ [''## Table of Contents''] @ drop 1 (splitlines s)) \<and>
         split_nl (generate_table_of_contents s) =
           take 1 (splitlines s) @ [''## Table of Contents''] @ drop 1 (splitlines s)"
proof -
  have gen: "generate_table_of_contents s =
      join_nl (take 1 (splitlines s) @ [''## Table of Contents''] @ drop 1 (splitlines s))"
    by (simp add: generate_table_of_contents_def Let_def toc_lines_no_headings [OF assms])
  have "split_nl (generate_table_of_contents s) =
      take 1 (splitlines s) @ toc_lines s @ drop 1 (splitlines s)"
    unfolding generate_table_of_contents_def Let_def
    by (rule split_join [OF output_lines_nonempty output_lines_no_LF])
  with gen show ?thesis by (simp add: toc_lines_no_headings [OF assms])
qed

text \<open>
  A document whose only \<^verbatim>\<open>#\<close> is not followed by whitespace.
\<close>

theorem no_headings_toc_witness:
  "generate_table_of_contents (''Title'' @ [LF] @ ''#nospace'' @ [LF] @ ''text'') =
     ''Title'' @ [LF] @ ''## Table of Contents'' @ [LF] @ ''#nospace'' @ [LF] @ ''text''"
proof -
  let ?s = "''Title'' @ [LF] @ ''#nospace'' @ [LF] @ ''text''"
  have "headings ?s = []" by code_simp
  from no_headings_toc [OF this]
  have "generate_table_of_contents ?s =
      join_nl (take 1 (splitlines ?s) @ [''## Table of Contents''] @ drop 1 (splitlines ?s))"
    by blast
  also have "\<dots> = ''Title'' @ [LF] @ ''## Table of Contents'' @ [LF] @ ''#nospace'' @ [LF] @ ''text''"
    by code_simp
  finally show ?thesis .
qed

subsection \<open>C6: the slug of a slug\<close>

text \<open>
  C6. The derivation of the slug is idempotent: the slug of a slug is that slug.
\<close>

theorem slug_idempotent: "link_text (link_text t) = link_text t"
  by (rule link_text_idem)

text \<open>
  Idempotence at \<^verbatim>\<open>Hello, World!\<close>.
\<close>

theorem slug_idempotent_witness:
  "link_text (link_text ''Hello, World!'') = ''hello-world''"
proof -
  have "link_text ''Hello, World!'' = ''hello-world''" by code_simp
  with slug_idempotent [of "''Hello, World!''"] show ?thesis by simp
qed

subsection \<open>C7: the text of a heading\<close>

text \<open>
  C7, as the specification states it: the heading text is trimmed on both sides. It is
  not trimmed on the right: the line \<^verbatim>\<open>## Table of Contents \<close> (with a final space)
  has a text that ends with the space, is not taken for the literal
  \<^verbatim>\<open>Table of Contents\<close>, and gets an entry that shows the space.
\<close>

theorem heading_text_trailing_space_counterexample:
  "headings (''# T'' @ [LF] @ ''## Table of Contents '' @ [LF]) =
     [(''# T'', ''T''), (''## Table of Contents '', ''Table of Contents '')] \<and>
   isspace (last ''Table of Contents '') \<and>
   toc_lines (''# T'' @ [LF] @ ''## Table of Contents '' @ [LF]) =
     [''## Table of Contents'', ''  - [Table of Contents ](#table-of-contents-)'']"
  by code_simp

text \<open>
  C7, amended: the text of every matched heading, which the entry shows, compares
  with \<^verbatim>\<open>Table of Contents\<close> and turns into the slug, is what follows the run of
  \<^verbatim>\<open>#\<close> and the whitespace behind it up to the end of the line: it has no leading
  whitespace and no line feed. Its trailing whitespace stays.
\<close>

theorem heading_text_no_leading_space:
  "\<forall>h\<in>set (headings s).
     (snd h = [] \<or> \<not> isspace (hd (snd h))) \<and> LF \<notin> set (snd h) \<and>
     (\<exists>k ws. 1 \<le> k \<and> ws \<noteq> [] \<and> (\<forall>c\<in>set ws. isspace c) \<and>
        fst h = replicate k HASH @ ws @ snd h)"
proof
  fix h assume "h \<in> set (headings s)"
  then obtain s' rest where m: "match_heading s' = Some (fst h, snd h, rest)"
    unfolding headings_def using findall_headings_match by blast
  from match_heading_shape(1) [OF m] match_heading_shape(2) [OF m] match_heading_shape(3) [OF m]
  show "(snd h = [] \<or> \<not> isspace (hd (snd h))) \<and> LF \<notin> set (snd h) \<and>
     (\<exists>k ws. 1 \<le> k \<and> ws \<noteq> [] \<and> (\<forall>c\<in>set ws. isspace c) \<and>
        fst h = replicate k HASH @ ws @ snd h)"
    by blast
qed

text \<open>
  The property at a heading with two spaces before and behind its text.
\<close>

theorem heading_text_no_leading_space_witness:
  "(''##  A  '', ''A  '') \<in> set (headings (''# T'' @ [LF] @ ''##  A  '')) \<and>
   \<not> isspace (hd ''A  '') \<and> LF \<notin> set ''A  ''"
proof -
  let ?s = "''# T'' @ [LF] @ ''##  A  ''"
  have mem: "(''##  A  '', ''A  '') \<in> set (headings ?s)" by code_simp
  with heading_text_no_leading_space [of ?s]
  have "(snd (''##  A  '', ''A  '') = [] \<or> \<not> isspace (hd (snd (''##  A  '', ''A  ''))))
      \<and> LF \<notin> set (snd (''##  A  '', ''A  ''))"
    by blast
  with mem show ?thesis by simp
qed

subsection \<open>C8: no failure\<close>




subsection \<open>C9: the end of the output\<close>

text \<open>
  C9, as stated: the output never ends with a line feed. It does when the input ends
  with a blank line: the lines of \<^verbatim>\<open>a\<close>, line feed, line feed are \<^verbatim>\<open>a\<close> and
  the empty line, and the join ends with the separator before the empty line.
\<close>

theorem blank_last_line_counterexample:
  "generate_table_of_contents (''a'' @ [LF, LF]) = ''a'' @ [LF] @ ''## Table of Contents'' @ [LF] \<and>
   last (generate_table_of_contents (''a'' @ [LF, LF])) = LF"
  by code_simp

text \<open>
  C9, amended: the output ends with a line feed exactly when the input has at least
  two lines and its last line is empty. In particular, for an input that ends with
  one line feed behind a character that ends no line, the output is not empty and
  does not end with a line feed: the final line feed of the input is dropped.
\<close>

theorem output_trailing_newline:
  "((generate_table_of_contents s \<noteq> [] \<and> last (generate_table_of_contents s) = LF) =
      (2 \<le> length (splitlines s) \<and> last (splitlines s) = [])) \<and>
   (\<not> is_linebreak c \<longrightarrow>
      generate_table_of_contents (t @ [c, LF]) \<noteq> [] \<and>
      last (generate_table_of_contents (t @ [c, LF])) \<noteq> LF)"
proof -
  have iff: "(generate_table_of_contents u \<noteq> [] \<and> last (generate_table_of_contents u) = LF) =
      (2 \<le> length (splitlines u) \<and> last (splitlines u) = [])" for u
    unfolding generate_join
    using last_join [OF output_lines_nonempty output_lines_no_LF, of u] output_last_line [of u]
    by simp
  have "generate_table_of_contents (t @ [c, LF]) \<noteq> [] \<and>
      last (generate_table_of_contents (t @ [c, LF])) \<noteq> LF" if c: "\<not> is_linebreak c"
  proof -
    let ?u = "t @ [c, LF]"
    have "splitlines ?u \<noteq> []" by (rule splitlines_nonempty) simp
    then obtain l0 ls where L: "splitlines ?u = l0 # ls" by (cases "splitlines ?u") auto
    obtain t0 ts where T: "toc_lines ?u = t0 # ts"
      using toc_lines_nonempty [of ?u] by (cases "toc_lines ?u") auto
    have ne: "generate_table_of_contents ?u \<noteq> []"
      unfolding generate_join L T by simp
    have "last (splitlines ?u) \<noteq> []" using c by (rule splitlines_last_nonempty)
    with iff [of ?u] ne show ?thesis by blast
  qed
  with iff [of s] show ?thesis by blast
qed

text \<open>
  The property at a two-line document with a final line feed.
\<close>

theorem output_trailing_newline_witness:
  "\<not> is_linebreak (CHR ''a'') \<and>
   last (generate_table_of_contents (''# T'' @ [LF] @ ''a'' @ [LF])) \<noteq> LF"
proof -
  have a: "\<not> is_linebreak (CHR ''a'')" by (simp add: is_linebreak_def code_def)
  with output_trailing_newline [of "[]" "CHR ''a''" "''# T'' @ [LF]"]
  have "last (generate_table_of_contents ((''# T'' @ [LF]) @ [CHR ''a'', LF])) \<noteq> LF"
    by blast
  with a show ?thesis by simp
qed

subsection \<open>C10: a heading of punctuation\<close>

text \<open>
  C10, as stated: a heading whose text has no letter, digit, underscore or whitespace
  has the empty slug. The hyphen is none of these and stays in the slug: the heading
  \<^verbatim>\<open>## --\<close> has the entry \<^verbatim>\<open>  - [--](#--)\<close>.
\<close>

theorem punctuation_hyphen_counterexample:
  "\<not> isalpha HYPHEN \<and> \<not> isnumeric HYPHEN \<and> HYPHEN \<noteq> CHR ''_'' \<and> \<not> isspace HYPHEN \<and>
   headings (''# T'' @ [LF] @ ''## --'') = [(''# T'', ''T''), (''## --'', ''--'')] \<and>
   link_text ''--'' = ''--'' \<and>
   toc_lines (''# T'' @ [LF] @ ''## --'') = [''## Table of Contents'', ''  - [--](#--)'']"
  by code_simp

text \<open>
  C10, amended: a heading of level above 1 whose text is not
  \<^verbatim>\<open>Table of Contents\<close> and has no word character (letter, digit or other numeric
  character, underscore), no whitespace and no hyphen has the empty slug and still
  gets its entry, indentation, \<^verbatim>\<open>- [\<close>, the text and \<^verbatim>\<open>](#)\<close>. Such entries
  are neither suppressed nor deduplicated: the table is its heading line followed by
  the entries of all headings in their order, and the line of the entry stands among
  the lines of the table at least as often as the heading occurs in the document.
\<close>

theorem empty_slug_entry:
  assumes "h \<in> set (headings s)" and "1 < level h" and "snd h \<noteq> ''Table of Contents''"
    and "\<forall>c\<in>set (snd h). \<not> is_word c \<and> \<not> isspace c \<and> c \<noteq> HYPHEN"
  shows "link_text (snd h) = [] \<and>
         toc_entry h = indentation h @ ''- ['' @ snd h @ ''](#)'' @ [LF] \<and>
         toc s = ''## Table of Contents'' @ [LF] @ concat (map toc_entry (headings s)) \<and>
         count_list (headings s) h
           \<le> count_list (toc_lines s) (indentation h @ ''- ['' @ snd h @ ''](#)'') \<and>
         indentation h @ ''- ['' @ snd h @ ''](#)'' \<in> set (toc_lines s)"
proof -
  let ?l = "indentation h @ ''- ['' @ snd h @ ''](#)''"
  have slug: "link_text (snd h) = []" using assms(4) by (rule link_text_empty)
  with assms(2,3) have entry: "toc_entry h = indentation h @ ''- ['' @ snd h @ ''](#)'' @ [LF]"
    by (simp add: toc_entry_def)
  then have E: "toc_entry h = ?l @ [LF]" by simp
  have nb: "\<forall>c\<in>set ?l. \<not> is_linebreak c" using assms(4) by (rule punctuation_no_break)
  have "count_list (splitlines (''## Table of Contents'' @ [LF])) ?l + count_list (headings s) h
      \<le> count_list (splitlines ((''## Table of Contents'' @ [LF]) @
            concat (map toc_entry (headings s)))) ?l"
    by (rule count_entry_lines [OF E nb])
  then have cnt: "count_list (headings s) h \<le> count_list (toc_lines s) ?l"
    unfolding toc_lines_def toc_concat by simp
  have "0 < count_list (headings s) h"
    using assms(1) count_list_0_iff [of "headings s" h] by auto
  with cnt have "0 < count_list (toc_lines s) ?l" by linarith
  then have mem: "?l \<in> set (toc_lines s)"
    using count_list_0_iff [of "toc_lines s" ?l] by auto
  from slug entry cnt mem toc_concat [of s] show ?thesis by blast
qed

text \<open>
  The property at a document with the heading \<^verbatim>\<open>## !?\<close> twice: two equal entries.
\<close>

theorem empty_slug_entry_witness:
  "toc_lines (''# T'' @ [LF] @ ''## !?'' @ [LF] @ ''## !?'') =
     [''## Table of Contents'', ''  - [!?](#)'', ''  - [!?](#)''] \<and>
   2 \<le> count_list (toc_lines (''# T'' @ [LF] @ ''## !?'' @ [LF] @ ''## !?'')) ''  - [!?](#)'' \<and>
   link_text ''!?'' = []"
proof -
  let ?s = "''# T'' @ [LF] @ ''## !?'' @ [LF] @ ''## !?''"
  let ?h = "(''## !?'', ''!?'')"
  have 1: "?h \<in> set (headings ?s)" by code_simp
  have 2: "1 < level ?h" by code_simp
  have 3: "snd ?h \<noteq> ''Table of Contents''" by simp
  have 4: "\<forall>c\<in>set (snd ?h). \<not> is_word c \<and> \<not> isspace c \<and> c \<noteq> HYPHEN" by code_simp
  have 5: "indentation ?h = ''  ''" by code_simp
  have 6: "count_list (headings ?s) ?h = 2" by code_simp
  have 7: "toc_lines ?s = [''## Table of Contents'', ''  - [!?](#)'', ''  - [!?](#)'']"
    by code_simp
  from empty_slug_entry [OF 1 2 3 4] 5 6
  have "link_text ''!?'' = []" and "2 \<le> count_list (toc_lines ?s) ''  - [!?](#)''"
    by simp_all
  with 7 show ?thesis by blast
qed

end
